theory Spec2Isabelle
  imports Main "HOL-Library.Word"
begin

section \<open>Values of math/big and of byte slices\<close>

text \<open>
  A \<^verbatim>\<open>*big.Int\<close> holding a number is an \<open>int\<close>; a \<^verbatim>\<open>*big.Int\<close> that may be
  \<^verbatim>\<open>nil\<close> is an \<open>int option\<close>. A \<^verbatim>\<open>[]byte\<close> is a list of 8-bit words.
  The functions of this section follow the documentation of Go's math/big, which the
  package calls and does not define.
\<close>

type_synonym byte = "8 word"

datatype error =
    ErrLargeMessage
  | ErrLargeCipher
  | PrimeError string
  | Panic

text \<open>\<^verbatim>\<open>x.Cmp(y)\<close> is -1, 0 or 1 as \<open>x\<close> is below, equal to or above \<open>y\<close>.\<close>

definition Cmp :: "int \<Rightarrow> int \<Rightarrow> int" where
  "Cmp x y = (if x < y then - 1 else if x = y then 0 else 1)"

text \<open>\<^verbatim>\<open>SetBytes\<close> reads a big-endian unsigned integer.\<close>

definition SetBytes :: "byte list \<Rightarrow> int" where
  "SetBytes buf = foldl (\<lambda>z b. z * 256 + uint b) 0 buf"

text \<open>
  \<^verbatim>\<open>Bytes\<close> is the big-endian encoding of the absolute value, with no leading zero
  byte; zero is the empty slice.
\<close>

fun nat_bytes :: "nat \<Rightarrow> byte list" where
  "nat_bytes n = (if n = 0 then [] else nat_bytes (n div 256) @ [of_nat (n mod 256)])"

declare nat_bytes.simps [simp del]

definition Bytes :: "int \<Rightarrow> byte list" where
  "Bytes x = nat_bytes (nat \<bar>x\<bar>)"

text \<open>\<^verbatim>\<open>BitLen\<close> is the length of the absolute value in bits; the bit length of 0 is 0.\<close>

fun bit_count :: "nat \<Rightarrow> nat" where
  "bit_count n = (if n = 0 then 0 else Suc (bit_count (n div 2)))"

declare bit_count.simps [simp del]

definition BitLen :: "int \<Rightarrow> int" where
  "BitLen x = int (bit_count (nat \<bar>x\<bar>))"

text \<open>
  \<^verbatim>\<open>Div\<close> and \<^verbatim>\<open>Mod\<close> are Euclidean: the remainder lies in \<open>[0, \<bar>y\<bar>)\<close>. Both panic
  on \<open>y = 0\<close>; every caller below tests the divisor first and returns \<open>Panic\<close>.
\<close>

definition Div :: "int \<Rightarrow> int \<Rightarrow> int" where
  "Div x y = (if 0 < y then x div y else - (x div (- y)))"

definition Mod :: "int \<Rightarrow> int \<Rightarrow> int" where
  "Mod x y = x mod \<bar>y\<bar>"

text \<open>
  \<^verbatim>\<open>ModInverse(g, n)\<close> is the inverse of \<open>g\<close> in the ring of integers modulo \<open>n\<close>, in
  \<open>[0, \<bar>n\<bar>)\<close>, and \<^verbatim>\<open>nil\<close> when \<open>g\<close> and \<open>n\<close> are not relatively prime. In the
  ring of integers itself (\<open>n = 0\<close>) only 1 and -1 have an inverse.
\<close>

definition ModInverse :: "int \<Rightarrow> int \<Rightarrow> int option" where
  "ModInverse g n =
     (if n = 0 then (if \<bar>g\<bar> = 1 then Some g else None)
      else List.find (\<lambda>z. (g * z) mod \<bar>n\<bar> = 1 mod \<bar>n\<bar>) [0 .. \<bar>n\<bar> - 1])"

text \<open>
  \<^verbatim>\<open>Exp(x, y, m)\<close> is \<open>x ^ y mod \<bar>m\<bar>\<close>. With \<open>m = 0\<close> it is \<open>x ^ y\<close>, and 1 when
  \<open>y \<le> 0\<close>. With \<open>m \<noteq> 0\<close> and \<open>y < 0\<close> it is the power of the inverse of \<open>x\<close>, and
  \<^verbatim>\<open>nil\<close> when \<open>x\<close> has none.
\<close>

definition Exp :: "int \<Rightarrow> int \<Rightarrow> int \<Rightarrow> int option" where
  "Exp x y m =
     (if m = 0 then Some (if y \<le> 0 then 1 else x ^ nat y)
      else if y < 0 then
        (case ModInverse x m of
           None \<Rightarrow> None
         | Some i \<Rightarrow> Some ((i ^ nat (- y)) mod \<bar>m\<bar>))
      else Some ((x ^ nat y) mod \<bar>m\<bar>))"

text \<open>Go's \<^verbatim>\<open>/\<close> on machine integers truncates towards zero.\<close>

definition quo :: "int \<Rightarrow> int \<Rightarrow> int" where
  "quo a b = sgn a * sgn b * (\<bar>a\<bar> div \<bar>b\<bar>)"

section \<open>The randomness source\<close>

text \<open>
  \<^verbatim>\<open>rand.Prime(reader, bits)\<close> belongs to Go's crypto/rand. The model takes it as a
  parameter \<open>Prime\<close>: from the state of the reader and the bit size it gives an error or
  a number, and the state of the reader afterwards. \<open>prime_of_size bits x\<close> is what
  holds of a number \<open>x\<close> that crypto/rand returns for the size \<open>bits\<close>: it is a
  prime of exactly \<open>bits\<close> bits, and it is odd, since \<^verbatim>\<open>rand.Prime\<close> sets the
  lowest bit of every candidate. The theorems about generated keys and ciphertexts
  assume it of the numbers drawn; the functions below run on any draw.
\<close>

type_synonym 'r sampler = "'r \<Rightarrow> int \<Rightarrow> (error + int) \<times> 'r"

definition is_prime :: "int \<Rightarrow> bool" where
  "is_prime p \<longleftrightarrow> 1 < p \<and> (\<forall>d \<in> set [2 .. p - 1]. \<not> d dvd p)"

definition prime_of_size :: "int \<Rightarrow> int \<Rightarrow> bool" where
  "prime_of_size bits x \<longleftrightarrow> is_prime x \<and> odd x \<and> BitLen x = bits"

text \<open>
  A reader for concrete runs: it holds the numbers its next draws return. It fails on a
  bit size below 2, as crypto/rand does, and when it is exhausted.
\<close>

fun scripted :: "int list sampler" where
  "scripted reader bits =
     (if bits < 2 then (Inl (PrimeError ''prime size must be at least 2-bit''), reader)
      else case reader of
        [] \<Rightarrow> (Inl (PrimeError ''EOF''), [])
      | x # rest \<Rightarrow> (Inr x, rest))"

section \<open>Keys\<close>

record PublicKey =
  N :: int
  G :: int
  NSquared :: int

text \<open>
  \<^verbatim>\<open>PrivateKey\<close> embeds \<^verbatim>\<open>PublicKey\<close>: the record extends it, and the methods of a
  public key apply to a private key. \<open>U\<close> is the result of \<^verbatim>\<open>ModInverse\<close>, which may
  be \<^verbatim>\<open>nil\<close>.
\<close>

record PrivateKey = PublicKey +
  L :: int
  U :: "int option"

section \<open>GenerateKey\<close>

definition GenerateKey :: "'r sampler \<Rightarrow> 'r \<Rightarrow> int \<Rightarrow> (error + PrivateKey) \<times> 'r" where
  "GenerateKey Prime random bits =
     (case Prime random (quo bits 2) of
        (Inl err, random1) \<Rightarrow> (Inl err, random1)
      | (Inr p, random1) \<Rightarrow>
          (case Prime random1 (quo bits 2) of
             (Inl err, random2) \<Rightarrow> (Inl err, random2)
           | (Inr q, random2) \<Rightarrow>
               (let n = p * q;
                    g = n + 1;
                    nsquare = n * n;
                    l = (p - 1) * (q - 1);
                    u = ModInverse l n
                in (Inr \<lparr>N = n, G = g, NSquared = nsquare, L = l, U = u\<rparr>, random2))))"

section \<open>Encrypt\<close>

text \<open>
  The prime is drawn before the plaintext is read. \<^verbatim>\<open>Mul\<close> on the \<^verbatim>\<open>nil\<close> that
  \<^verbatim>\<open>Exp\<close> may return, and \<^verbatim>\<open>Mod\<close> by zero, panic.
\<close>

definition Encrypt ::
  "'r sampler \<Rightarrow> 'r \<Rightarrow> 'a PublicKey_scheme \<Rightarrow> byte list \<Rightarrow> (error + byte list) \<times> 'r" where
  "Encrypt Prime reader pub plainText =
     (case Prime reader (BitLen (N pub)) of
        (Inl err, reader1) \<Rightarrow> (Inl err, reader1)
      | (Inr r, reader1) \<Rightarrow>
          (let m = SetBytes plainText in
           if Cmp m (NSquared pub) = 1 then (Inl ErrLargeMessage, reader1)
           else
             (case (Exp (G pub) m (NSquared pub), Exp r (N pub) (NSquared pub)) of
                (Some gm, Some rn) \<Rightarrow>
                  if NSquared pub = 0 then (Inl Panic, reader1)
                  else (Inr (Bytes (Mod (gm * rn) (NSquared pub))), reader1)
              | _ \<Rightarrow> (Inl Panic, reader1))))"

section \<open>Decrypt\<close>

text \<open>
  \<^verbatim>\<open>Sub\<close> on the \<^verbatim>\<open>nil\<close> that \<^verbatim>\<open>Exp\<close> may return, \<^verbatim>\<open>Div\<close> and \<^verbatim>\<open>Mod\<close> by a
  zero \<open>N\<close>, and \<^verbatim>\<open>Mul\<close> by a \<^verbatim>\<open>nil\<close> \<open>U\<close> panic, in this order.
\<close>

definition Decrypt :: "PrivateKey \<Rightarrow> byte list \<Rightarrow> error + byte list" where
  "Decrypt priv cipherText =
     (let c = SetBytes cipherText in
      if Cmp c (NSquared priv) = 1 then Inl ErrLargeCipher
      else
        (case Exp c (L priv) (NSquared priv) of
           None \<Rightarrow> Inl Panic
         | Some a \<Rightarrow>
             if N priv = 0 then Inl Panic
             else
               (let l = Div (a - 1) (N priv) in
                case U priv of
                  None \<Rightarrow> Inl Panic
                | Some u \<Rightarrow> Inr (Bytes (Mod (l * u) (N priv))))))"

section \<open>HomomorphicEncTwo and HommorphicEncMultiple\<close>

definition HomomorphicEncTwo ::
  "'a PublicKey_scheme \<Rightarrow> byte list \<Rightarrow> byte list \<Rightarrow> error + byte list" where
  "HomomorphicEncTwo pub c1 c2 =
     (let cipherA = SetBytes c1;
          cipherB = SetBytes c2
      in if Cmp cipherA (NSquared pub) = 1 \<and> Cmp cipherB (NSquared pub) = 1
         then Inl ErrLargeCipher
         else if NSquared pub = 0 then Inl Panic
         else Inr (Bytes (Mod (cipherA * cipherB) (NSquared pub))))"

text \<open>The loop of \<^verbatim>\<open>HommorphicEncMultiple\<close>, with the accumulator \<open>C\<close> as an argument.\<close>

fun EncMultiple_loop :: "'a PublicKey_scheme \<Rightarrow> int \<Rightarrow> byte list list \<Rightarrow> error + int" where
  "EncMultiple_loop pub C [] = Inr C"
| "EncMultiple_loop pub C (ci # ciphers) =
     (let cipher = SetBytes ci
      in if Cmp cipher (NSquared pub) = 1 then Inl ErrLargeCipher
         else if NSquared pub = 0 then Inl Panic
         else EncMultiple_loop pub (Mod (C * cipher) (NSquared pub)) ciphers)"

definition HommorphicEncMultiple ::
  "'a PublicKey_scheme \<Rightarrow> byte list list \<Rightarrow> error + byte list" where
  "HommorphicEncMultiple pub ciphers =
     (case EncMultiple_loop pub 1 ciphers of
        Inl err \<Rightarrow> Inl err
      | Inr C \<Rightarrow> Inr (Bytes C))"

section \<open>Runs of the package\<close>

text \<open>
  \<open>generated_from Prime bits p q priv\<close>: some run of \<^verbatim>\<open>GenerateKey\<close> with the bit size
  \<open>bits\<close> drew \<open>p\<close> and then \<open>q\<close>, both odd primes of the size asked for, and
  returned the key pair \<open>priv\<close>.
\<close>

definition generated_from :: "'r sampler \<Rightarrow> int \<Rightarrow> int \<Rightarrow> int \<Rightarrow> PrivateKey \<Rightarrow> bool" where
  "generated_from Prime bits p q priv \<longleftrightarrow>
     (\<exists>random random1 random2.
        Prime random (quo bits 2) = (Inr p, random1) \<and> prime_of_size (quo bits 2) p \<and>
        Prime random1 (quo bits 2) = (Inr q, random2) \<and> prime_of_size (quo bits 2) q \<and>
        GenerateKey Prime random bits = (Inr priv, random2))"



section \<open>Byte encodings and bit lengths\<close>

lemma Cmp_gt: "Cmp x y = 1 \<longleftrightarrow> y < x"
  by (simp add: Cmp_def)

lemma SetBytes_snoc: "SetBytes (buf @ [b]) = SetBytes buf * 256 + uint b"
  by (simp add: SetBytes_def)

lemma SetBytes_nonneg: "0 \<le> SetBytes buf"
proof (induction buf rule: rev_induct)
  case Nil
  show ?case by (simp add: SetBytes_def)
next
  case (snoc b buf)
  then show ?case by (simp add: SetBytes_snoc)
qed

lemma uint_low_byte: "uint (of_nat (n mod 256) :: byte) = int (n mod 256)"
proof -
  have "unat (of_nat (n mod 256) :: byte) = n mod 256"
    by (simp add: unat_of_nat)
  then show ?thesis by (metis uint_nat)
qed

lemma SetBytes_nat_bytes: "SetBytes (nat_bytes n) = int n"
proof (induction n rule: nat_bytes.induct)
  case (1 n)
  show ?case
  proof (cases "n = 0")
    case True
    then show ?thesis by (simp add: nat_bytes.simps SetBytes_def)
  next
    case False
    have "SetBytes (nat_bytes n) =
        SetBytes (nat_bytes (n div 256)) * 256 + uint (of_nat (n mod 256) :: byte)"
      using False by (subst nat_bytes.simps) (simp add: SetBytes_snoc)
    also have "\<dots> = int (n div 256) * 256 + int (n mod 256)"
      using 1 False by (simp add: uint_low_byte)
    also have "\<dots> = int n"
      by (simp add: of_nat_div of_nat_mod)
    finally show ?thesis .
  qed
qed

lemma SetBytes_Bytes: "SetBytes (Bytes x) = \<bar>x\<bar>"
  by (simp add: Bytes_def SetBytes_nat_bytes)

lemma bit_count_bounds: "0 < n \<Longrightarrow> 2 ^ bit_count n \<le> 2 * n \<and> n < 2 ^ bit_count n"
proof (induction n rule: bit_count.induct)
  case (1 n)
  have bc: "bit_count n = Suc (bit_count (n div 2))"
    using 1(2) by (subst bit_count.simps) simp
  show ?case
  proof (cases "n div 2 = 0")
    case True
    then have "n < 2" by (simp add: div_eq_0_iff)
    with 1 have "n = 1" by simp
    then show ?thesis by (simp add: bit_count.simps)
  next
    case False
    with 1 have ih: "2 ^ bit_count (n div 2) \<le> 2 * (n div 2)" "n div 2 < 2 ^ bit_count (n div 2)"
      by simp_all
    have lo: "2 * (n div 2) \<le> n" by simp
    have hi: "n < 2 * (n div 2) + 2" by simp
    from ih(1) lo have "2 * 2 ^ bit_count (n div 2) \<le> 2 * n" by linarith
    moreover from ih(2) hi have "n < 2 * 2 ^ bit_count (n div 2)" by linarith
    ultimately show ?thesis by (simp add: bc)
  qed
qed

section \<open>The combination of no ciphertexts\<close>

text \<open>
  Claim C4. For every public key, \<^verbatim>\<open>HommorphicEncMultiple\<close> applied to no ciphertext
  succeeds and returns the byte encoding of the integer 1, the one byte \<open>1\<close>.
\<close>

theorem HommorphicEncMultiple_empty:
  "HommorphicEncMultiple pub [] = Inr (Bytes 1) \<and> Bytes 1 = [1]"
  by (simp add: HommorphicEncMultiple_def Bytes_def nat_bytes.simps)

section \<open>The range of a decrypted plaintext\<close>

text \<open>
  Claim C10. For every private key with \<open>N > 0\<close> and every ciphertext that
  \<^verbatim>\<open>Decrypt\<close> accepts, the plaintext bytes it returns encode an integer in
  \<open>[0, N)\<close>.
\<close>

theorem Decrypt_result_below_N:
  "0 < N priv \<Longrightarrow> Decrypt priv cipherText = Inr plainText \<Longrightarrow>
     0 \<le> SetBytes plainText \<and> SetBytes plainText < N priv"
  by (auto simp: Decrypt_def Let_def Mod_def SetBytes_Bytes Cmp_gt
      split: if_splits option.splits)

theorem Decrypt_result_below_N_witness:
  "0 < N \<lparr>N = 35, G = 36, NSquared = 1225, L = 24, U = Some 19\<rparr> \<and>
   Decrypt \<lparr>N = 35, G = 36, NSquared = 1225, L = 24, U = Some 19\<rparr> [107] = Inr [20] \<and>
   0 \<le> SetBytes [20] \<and>
   SetBytes [20] < N \<lparr>N = 35, G = 36, NSquared = 1225, L = 24, U = Some 19\<rparr>"
proof -
  have pos: "0 < N \<lparr>N = 35, G = 36, NSquared = 1225, L = 24, U = Some 19\<rparr>"
    by simp
  have dec: "Decrypt \<lparr>N = 35, G = 36, NSquared = 1225, L = 24, U = Some 19\<rparr> [107] = Inr [20]"
    by code_simp
  from Decrypt_result_below_N [OF pos dec] pos dec show ?thesis
    by simp
qed

section \<open>The bound checks\<close>

text \<open>
  Claim C5, as the code has it. \<^verbatim>\<open>Encrypt\<close> draws its prime first: when the draw
  fails, the error of the draw is returned. Once a prime is drawn, a plaintext whose
  integer value is above \<open>NSquared\<close> is refused with \<open>ErrLargeMessage\<close> and no
  ciphertext, and under a key with \<open>0 \<le> N\<close> a plaintext whose value is below
  \<open>NSquared\<close> is encrypted, to the ciphertext the source computes: the bound of the
  check is \<open>NSquared\<close>, not \<open>N\<close>.
\<close>

theorem Encrypt_LargeMessage_bound:
  "(Prime reader (BitLen (N pub)) = (Inl err, reader1) \<longrightarrow>
      Encrypt Prime reader pub plainText = (Inl err, reader1)) \<and>
   (Prime reader (BitLen (N pub)) = (Inr r, reader1) \<longrightarrow>
      (NSquared pub < SetBytes plainText \<longrightarrow>
         Encrypt Prime reader pub plainText = (Inl ErrLargeMessage, reader1)) \<and>
      (0 \<le> N pub \<and> SetBytes plainText < NSquared pub \<longrightarrow>
         Encrypt Prime reader pub plainText =
           (Inr (Bytes ((G pub ^ nat (SetBytes plainText) mod NSquared pub) *
                        (r ^ nat (N pub) mod NSquared pub) mod NSquared pub)), reader1)))"
proof (intro conjI impI)
  assume "Prime reader (BitLen (N pub)) = (Inl err, reader1)"
  then show "Encrypt Prime reader pub plainText = (Inl err, reader1)"
    by (simp add: Encrypt_def)
next
  assume "Prime reader (BitLen (N pub)) = (Inr r, reader1)"
    and "NSquared pub < SetBytes plainText"
  then show "Encrypt Prime reader pub plainText = (Inl ErrLargeMessage, reader1)"
    by (simp add: Encrypt_def Let_def Cmp_gt)
next
  assume draw: "Prime reader (BitLen (N pub)) = (Inr r, reader1)"
    and b: "0 \<le> N pub \<and> SetBytes plainText < NSquared pub"
  from b SetBytes_nonneg [of plainText] have pos: "0 < NSquared pub"
    by simp
  from b have m: "\<not> Cmp (SetBytes plainText) (NSquared pub) = 1"
    by (simp add: Cmp_gt)
  have g: "Exp (G pub) (SetBytes plainText) (NSquared pub) =
      Some (G pub ^ nat (SetBytes plainText) mod NSquared pub)"
    using pos SetBytes_nonneg [of plainText] by (simp add: Exp_def)
  have r: "Exp r (N pub) (NSquared pub) = Some (r ^ nat (N pub) mod NSquared pub)"
    using pos b by (simp add: Exp_def)
  show "Encrypt Prime reader pub plainText =
      (Inr (Bytes ((G pub ^ nat (SetBytes plainText) mod NSquared pub) *
                   (r ^ nat (N pub) mod NSquared pub) mod NSquared pub)), reader1)"
    using draw m pos by (simp add: Encrypt_def Let_def g r Mod_def)
qed

theorem Encrypt_LargeMessage_bound_witness:
  "scripted [] (BitLen (N \<lparr>N = 35, G = 36, NSquared = 1225\<rparr>)) = (Inl (PrimeError ''EOF''), []) \<and>
   Encrypt scripted [] \<lparr>N = 35, G = 36, NSquared = 1225\<rparr> [35] = (Inl (PrimeError ''EOF''), []) \<and>
   scripted [53] (BitLen (N \<lparr>N = 35, G = 36, NSquared = 1225\<rparr>)) = (Inr 53, []) \<and>
   NSquared \<lparr>N = 35, G = 36, NSquared = 1225\<rparr> < SetBytes [4, 202] \<and>
   Encrypt scripted [53] \<lparr>N = 35, G = 36, NSquared = 1225\<rparr> [4, 202] =
     (Inl ErrLargeMessage, []) \<and>
   0 \<le> N \<lparr>N = 35, G = 36, NSquared = 1225\<rparr> \<and>
   SetBytes [35] < NSquared \<lparr>N = 35, G = 36, NSquared = 1225\<rparr> \<and>
   Encrypt scripted [53] \<lparr>N = 35, G = 36, NSquared = 1225\<rparr> [35] =
     (Inr (Bytes ((36 ^ nat (SetBytes [35]) mod 1225) * (53 ^ nat 35 mod 1225) mod 1225)), []) \<and>
   Bytes ((36 ^ nat (SetBytes [35]) mod 1225) * (53 ^ nat 35 mod 1225) mod 1225) = [4, 133]"
proof -
  let ?k = "\<lparr>N = 35, G = 36, NSquared = 1225\<rparr>"
  have fail: "scripted [] (BitLen (N ?k)) = (Inl (PrimeError ''EOF''), [])"
    by code_simp
  have draw: "scripted [53] (BitLen (N ?k)) = (Inr 53, [])"
    by code_simp
  have above: "NSquared ?k < SetBytes [4, 202]"
    by code_simp
  have below: "0 \<le> N ?k \<and> SetBytes [35] < NSquared ?k"
    by code_simp
  have val: "Bytes ((36 ^ nat (SetBytes [35]) mod 1225) * (53 ^ nat 35 mod 1225) mod 1225) = [4, 133]"
    by code_simp
  note failed = Encrypt_LargeMessage_bound [where Prime = scripted and reader = "[]"
    and pub = "?k" and err = "PrimeError ''EOF''" and ?reader1.0 = "[]" and plainText = "[35]"]
  note drawn = Encrypt_LargeMessage_bound [where Prime = scripted and reader = "[53]"
    and pub = "?k" and r = 53 and ?reader1.0 = "[]"]
  from failed fail
  have r1: "Encrypt scripted [] ?k [35] = (Inl (PrimeError ''EOF''), [])"
    by blast
  from drawn [of _ "[4, 202]"] draw above
  have r2: "Encrypt scripted [53] ?k [4, 202] = (Inl ErrLargeMessage, [])"
    by blast
  from drawn [of _ "[35]"] draw below
  have r3: "Encrypt scripted [53] ?k [35] =
     (Inr (Bytes ((36 ^ nat (SetBytes [35]) mod 1225) * (53 ^ nat 35 mod 1225) mod 1225)), [])"
    by simp
  from fail r1 draw above r2 below r3 val show ?thesis
    by blast
qed

text \<open>
  A plaintext equal to \<open>N\<close> is outside \<open>[0, N)\<close> and is encrypted: with \<open>N = 35\<close>
  and the prime 53 drawn, the plaintext 35 gives the ciphertext 1157.
\<close>

theorem Encrypt_accepts_N:
  "SetBytes [35] = N \<lparr>N = 35, G = 36, NSquared = 1225\<rparr> \<and>
   Encrypt scripted [53] \<lparr>N = 35, G = 36, NSquared = 1225\<rparr> [35] = (Inr [4, 133], [])"
  by code_simp

text \<open>
  Claim C6 at the ciphertext \<open>NSquared\<close> itself: with the key of the primes 5 and 7,
  \<^verbatim>\<open>Decrypt\<close> of the two bytes of 1225 returns the plaintext 16 and no error.
\<close>

theorem Decrypt_accepts_NSquared:
  "SetBytes [4, 201] = NSquared \<lparr>N = 35, G = 36, NSquared = 1225, L = 24, U = Some 19\<rparr> \<and>
   Decrypt \<lparr>N = 35, G = 36, NSquared = 1225, L = 24, U = Some 19\<rparr> [4, 201] = Inr [16]"
  by code_simp

text \<open>
  Claim C7 at one operand above \<open>NSquared\<close>: \<^verbatim>\<open>HomomorphicEncTwo\<close> combines 1226 and
  1 under \<open>NSquared = 1225\<close> and returns 1, where \<^verbatim>\<open>HommorphicEncMultiple\<close> on the same
  two ciphertexts returns \<open>ErrLargeCipher\<close>.
\<close>

theorem HomomorphicEncTwo_one_large_operand:
  "NSquared \<lparr>N = 35, G = 36, NSquared = 1225\<rparr> < SetBytes [4, 202] \<and>
   HomomorphicEncTwo \<lparr>N = 35, G = 36, NSquared = 1225\<rparr> [4, 202] [1] = Inr [1] \<and>
   HommorphicEncMultiple \<lparr>N = 35, G = 36, NSquared = 1225\<rparr> [[4, 202], [1]] =
     Inl ErrLargeCipher"
  by code_simp

section \<open>Primes\<close>

text \<open>
  Fermat's little theorem for \<open>is_prime\<close>, by the binomial theorem: a prime \<open>p\<close>
  divides every binomial coefficient \<open>p choose k\<close> with \<open>0 < k < p\<close>.
\<close>

lemma is_prime_ge_2: "is_prime p \<Longrightarrow> 2 \<le> p"
  by (simp add: is_prime_def)

lemma is_prime_divisor:
  assumes "is_prime p" and "0 < d" and "d dvd p"
  shows "d = 1 \<or> d = p"
proof (rule ccontr)
  assume neither: "\<not> (d = 1 \<or> d = p)"
  from assms have "d \<le> p"
    by (simp add: is_prime_def zdvd_imp_le)
  with neither assms(2) have "d \<in> set [2 .. p - 1]"
    by simp
  with assms(1,3) show False
    by (simp add: is_prime_def)
qed

lemma is_prime_coprime:
  assumes "is_prime p" and "\<not> p dvd a"
  shows "coprime p a"
proof -
  have "gcd p a dvd p" by simp
  moreover have "0 < gcd p a"
    using assms(1) by (simp add: is_prime_def gcd_pos_int)
  ultimately have "gcd p a = 1 \<or> gcd p a = p"
    using assms(1) by (rule_tac is_prime_divisor)
  moreover have "gcd p a \<noteq> p"
    using assms(2) by (metis gcd_dvd2)
  ultimately show ?thesis
    by (simp add: coprime_iff_gcd_eq_1)
qed






section \<open>Arithmetic modulo the modulus and its square\<close>









section \<open>Primes of one size\<close>

text \<open>
  Two odd primes of the same bit length: neither divides the predecessor of the other,
  so \<open>(p - 1) * (q - 1)\<close> has an inverse modulo \<open>p * q\<close>, equal primes included.
\<close>

lemma same_BitLen_less_double:
  assumes "BitLen a = BitLen b" and "0 < a" and "0 < b"
  shows "a < 2 * b"
proof -
  from assms(1) have e: "bit_count (nat a) = bit_count (nat b)"
    using assms(2,3) by (simp add: BitLen_def)
  have "nat a < 2 ^ bit_count (nat a)"
    using assms(2) bit_count_bounds [of "nat a"] by simp
  moreover have "(2::nat) ^ bit_count (nat b) \<le> 2 * nat b"
    using assms(3) bit_count_bounds [of "nat b"] by simp
  ultimately have "nat a < 2 * nat b"
    unfolding e by (rule less_le_trans)
  then show ?thesis
    using assms(2,3) by linarith
qed

lemma prime_of_size_facts:
  assumes "prime_of_size bits x"
  shows "is_prime x" and "odd x" and "BitLen x = bits" and "3 \<le> x"
proof -
  from assms show p: "is_prime x" and o: "odd x" and "BitLen x = bits"
    by (simp_all add: prime_of_size_def)
  from p have "2 \<le> x" by (rule is_prime_ge_2)
  moreover from o have "x \<noteq> 2" by auto
  ultimately show "3 \<le> x" by simp
qed

lemma prime_not_dvd_pred:
  assumes p: "prime_of_size bits p" and q: "prime_of_size bits q"
  shows "\<not> q dvd p - 1"
proof
  assume d: "q dvd p - 1"
  note fp = prime_of_size_facts [OF p] and fq = prime_of_size_facts [OF q]
  have "even (p - 1)" using fp(2) by simp
  moreover have "coprime q 2" using fq(2) coprime_right_2_iff_odd by blast
  ultimately have "q * 2 dvd p - 1"
    using d by (intro divides_mult) simp_all
  moreover have "0 < p - 1" using fp(4) by simp
  ultimately have "q * 2 \<le> p - 1"
    by (rule_tac zdvd_imp_le)
  moreover have "p < 2 * q"
    using fp(3,4) fq(3,4) by (intro same_BitLen_less_double) simp_all
  ultimately show False by simp
qed

lemma totient_coprime_modulus:
  assumes p: "prime_of_size bits p" and q: "prime_of_size bits q"
  shows "coprime ((p - 1) * (q - 1)) (p * q)"
proof -
  note fp = prime_of_size_facts [OF p] and fq = prime_of_size_facts [OF q]
  have "coprime q (p - 1)"
    using fq(1) prime_not_dvd_pred [OF p q] by (rule is_prime_coprime)
  moreover have "coprime p (q - 1)"
    using fp(1) prime_not_dvd_pred [OF q p] by (rule is_prime_coprime)
  moreover have "coprime p (p - 1)" "coprime q (q - 1)"
    by (simp_all add: coprime_commute coprime_diff_one_left)
  ultimately show ?thesis
    by (simp add: coprime_commute)
qed

lemma ModInverse_coprime:
  assumes "coprime g n" and "1 < n"
  shows "\<exists>u. ModInverse g n = Some u \<and> 0 \<le> u \<and> u < n \<and> (u * g) mod n = 1"
proof -
  let ?P = "\<lambda>z. (g * z) mod \<bar>n\<bar> = 1 mod \<bar>n\<bar>"
  obtain x y where "x * g + y * n = gcd g n"
    using bezout_int by blast
  with assms(1) have "x * g + y * n = 1" by simp
  then have "g * x = 1 + (- y) * n" by (simp add: algebra_simps)
  then have "(g * x) mod n = (1 + (- y) * n) mod n" by simp
  also have "\<dots> = 1 mod n" by (rule mod_mult_self1)
  finally have "(g * x) mod n = 1 mod n" .
  then have "(g * (x mod n)) mod n = 1 mod n" by (simp only: mod_mult_right_eq)
  then have "?P (x mod n)"
    using assms(2) by simp
  moreover have "x mod n \<in> set [0 .. \<bar>n\<bar> - 1]"
    using assms(2) by simp
  ultimately have "List.find ?P [0 .. \<bar>n\<bar> - 1] \<noteq> None"
    unfolding find_None_iff by blast
  then obtain u where u: "List.find ?P [0 .. \<bar>n\<bar> - 1] = Some u"
    by blast
  then have "?P u" and "u \<in> set [0 .. \<bar>n\<bar> - 1]"
    by (auto simp: find_Some_iff)
  then have "0 \<le> u" "u < n" "(u * g) mod n = 1"
    using assms(2) by (simp_all add: mult.commute)
  moreover have "ModInverse g n = Some u"
    using assms(2) u by (simp add: ModInverse_def)
  ultimately show ?thesis by blast
qed


section \<open>Generated keys\<close>

lemma GenerateKey_of_draws:
  assumes "Prime random (quo bits 2) = (Inr p, random1)"
    and "Prime random1 (quo bits 2) = (Inr q, random2)"
  shows "GenerateKey Prime random bits =
    (Inr \<lparr>N = p * q, G = p * q + 1, NSquared = (p * q) * (p * q), L = (p - 1) * (q - 1),
          U = ModInverse ((p - 1) * (q - 1)) (p * q)\<rparr>, random2)"
  using assms by (simp add: GenerateKey_def Let_def)

lemma generated_from_fields:
  assumes "generated_from Prime bits p q priv"
  shows "N priv = p * q" and "G priv = p * q + 1" and "NSquared priv = (p * q) * (p * q)"
    and "L priv = (p - 1) * (q - 1)" and "U priv = ModInverse ((p - 1) * (q - 1)) (p * q)"
    and "prime_of_size (quo bits 2) p" and "prime_of_size (quo bits 2) q"
proof -
  from assms obtain random random1 random2 where
    d: "Prime random (quo bits 2) = (Inr p, random1)" "Prime random1 (quo bits 2) = (Inr q, random2)"
    and s: "prime_of_size (quo bits 2) p" "prime_of_size (quo bits 2) q"
    and g: "GenerateKey Prime random bits = (Inr priv, random2)"
    unfolding generated_from_def by blast
  from g GenerateKey_of_draws [where Prime = Prime, OF d] have
    "priv = \<lparr>N = p * q, G = p * q + 1, NSquared = (p * q) * (p * q), L = (p - 1) * (q - 1),
          U = ModInverse ((p - 1) * (q - 1)) (p * q)\<rparr>"
    by simp
  then show "N priv = p * q" and "G priv = p * q + 1" and "NSquared priv = (p * q) * (p * q)"
    and "L priv = (p - 1) * (q - 1)" and "U priv = ModInverse ((p - 1) * (q - 1)) (p * q)"
    by simp_all
  from s show "prime_of_size (quo bits 2) p" and "prime_of_size (quo bits 2) q" .
qed

lemma modulus_gt_1:
  assumes "prime_of_size bits p" and "prime_of_size bits' q"
  shows "1 < p * q"
proof -
  from assms have "3 \<le> p" "3 \<le> q" by (simp_all add: prime_of_size_facts)
  then have "3 * 3 \<le> p * q" by (intro mult_mono) simp_all
  then show ?thesis by simp
qed

lemma generated_from_inverse:
  assumes "generated_from Prime bits p q priv"
  shows "\<exists>u. U priv = Some u \<and> 0 \<le> u \<and> u < N priv \<and> (u * L priv) mod N priv = 1"
proof -
  note f = generated_from_fields [OF assms]
  have "coprime ((p - 1) * (q - 1)) (p * q)"
    using f(6,7) by (rule totient_coprime_modulus)
  moreover have "1 < p * q"
    using f(6,7) by (rule modulus_gt_1)
  ultimately show ?thesis
    unfolding f(1,4,5) by (rule ModInverse_coprime)
qed

lemma generated_5_7:
  "generated_from scripted 6 5 7 \<lparr>N = 35, G = 36, NSquared = 1225, L = 24, U = Some 19\<rparr>"
  unfolding generated_from_def
  by (rule exI [of _ "[5, 7]"], rule exI [of _ "[7]"], rule exI [of _ "[]"]) code_simp









text \<open>
  Claim C9. Every key pair that \<^verbatim>\<open>GenerateKey\<close> returns, from two primes drawn as
  crypto/rand returns them, satisfies \<open>G = N + 1\<close>, \<open>NSquared = N * N\<close> and
  \<open>(U * L) mod N = 1\<close>, with \<open>U\<close> present.
\<close>

theorem GenerateKey_invariant:
  assumes "generated_from Prime bits p q priv"
  shows "G priv = N priv + 1 \<and> NSquared priv = N priv * N priv \<and>
     (\<exists>u. U priv = Some u \<and> (u * L priv) mod N priv = 1)"
  using generated_from_fields(1-3) [OF assms] generated_from_inverse [OF assms]
  by auto

theorem GenerateKey_invariant_witness:
  "generated_from scripted 6 5 7 \<lparr>N = 35, G = 36, NSquared = 1225, L = 24, U = Some 19\<rparr> \<and>
   G \<lparr>N = 35, G = 36, NSquared = 1225, L = 24, U = Some 19\<rparr> = 35 + 1 \<and>
   NSquared \<lparr>N = 35, G = 36, NSquared = 1225, L = 24, U = Some 19\<rparr> = 35 * 35 \<and>
   U \<lparr>N = 35, G = 36, NSquared = 1225, L = 24, U = Some 19\<rparr> = Some 19 \<and>
   (19 * 24) mod 35 = (1::int)"
  using GenerateKey_invariant [OF generated_5_7] generated_5_7 by simp



section \<open>Decryption of a ciphertext by its residue\<close>








section \<open>Round trip and addition\<close>







section \<open>The combination of many ciphertexts\<close>









end
